theory Spec2Isabelle
  imports Complex_Main "HOL-Library.Product_Lexorder"
begin

section \<open>A* path planning on a terrain grid: the model of pathfinding.py\<close>

text \<open>
  The numbers of the program are modelled exactly: Python's integers as \<open>int\<close>, and the
  floating-point values (heights, speeds, costs, priorities) as \<open>real\<close>, so rounding,
  overflow to infinity and NaN are outside the model of the search; the overflow of the
  float32 height difference is written out in \<open>calculate_cost_float\<close>. Every exception
  the source can raise is a value of type \<open>error\<close>; a function that can raise returns
  \<open>error + 'a\<close>.
\<close>

subsection \<open>Data\<close>

type_synonym coord = "int \<times> int"

text \<open>One element of the structured array: the fields coordinates, terrain and height.\<close>

record cell =
  coordinates :: "int \<times> int"
  terrain :: int
  height :: real

text \<open>The grid is a two-dimensional array, held here as the list of its rows.\<close>

type_synonym grid = "cell list list"

datatype error = KeyError | IndexError

subsection \<open>Constants\<close>

definition GRID_SIZE :: int where
  "GRID_SIZE = 100"

definition TARGET :: coord where
  "TARGET = (50, 50)"

definition START :: coord where
  "START = (0, 0)"

definition TERRAIN_SPEED :: "string \<rightharpoonup> real" where
  "TERRAIN_SPEED = [''sand'' \<mapsto> 7 / 10, ''mud'' \<mapsto> 4 / 10, ''asphalt'' \<mapsto> 15 / 10]"

definition SLOPE_LIMIT :: real where
  "SLOPE_LIMIT = 2 / 10"

definition terrain_types :: "int \<rightharpoonup> string" where
  "terrain_types = [0 \<mapsto> ''sand'', 1 \<mapsto> ''mud'', 2 \<mapsto> ''asphalt'']"

subsection \<open>Dictionary and array reads\<close>

text \<open>\<open>d[k]\<close> on a dictionary raises KeyError when the key is missing.\<close>

definition dict_get :: "('k \<rightharpoonup> 'v) \<Rightarrow> 'k \<Rightarrow> error + 'v" where
  "dict_get d k = (case d k of None \<Rightarrow> Inl KeyError | Some v \<Rightarrow> Inr v)"

text \<open>
  An index into an array axis of length \<open>n\<close>: the indices \<open>0 .. n - 1\<close> are read as they
  are, the negative indices \<open>- n .. - 1\<close> count from the end, every other index raises
  IndexError.
\<close>

definition axis_index :: "nat \<Rightarrow> int \<Rightarrow> error + nat" where
  "axis_index n i =
     (if 0 \<le> i \<and> i < int n then Inr (nat i)
      else if - int n \<le> i \<and> i < 0 then Inr (nat (i + int n))
      else Inl IndexError)"

text \<open>\<open>grid[i, j]\<close>.\<close>

definition grid_at :: "grid \<Rightarrow> int \<Rightarrow> int \<Rightarrow> error + cell" where
  "grid_at grid i j =
     (case axis_index (length grid) i of
        Inl e \<Rightarrow> Inl e
      | Inr r \<Rightarrow>
          (case axis_index (length (grid ! r)) j of
             Inl e \<Rightarrow> Inl e
           | Inr c \<Rightarrow> Inr (grid ! r ! c)))"

subsection \<open>The cost model\<close>

text \<open>
  The three local variables of \<open>calculate_cost\<close>, each as a function of the cells it is
  computed from. \<open>terrain_cost\<close> reads two dictionaries and raises KeyError when the
  terrain code of the neighbor is not one of 0, 1, 2.
\<close>

definition terrain_cost :: "cell \<Rightarrow> error + real" where
  "terrain_cost neighbor =
     (case dict_get terrain_types (terrain neighbor) of
        Inl e \<Rightarrow> Inl e
      | Inr name \<Rightarrow>
          (case dict_get TERRAIN_SPEED name of
             Inl e \<Rightarrow> Inl e
           | Inr speed \<Rightarrow> Inr (1 / speed)))"

definition slope_cost :: "cell \<Rightarrow> cell \<Rightarrow> real" where
  "slope_cost current neighbor =
     (let height_diff = height neighbor - height current
      in 1 + \<bar>height_diff\<bar> / SLOPE_LIMIT)"

definition distance_cost :: "cell \<Rightarrow> cell \<Rightarrow> real" where
  "distance_cost current neighbor =
     (let (x1, y1) = coordinates current; (x2, y2) = coordinates neighbor
      in sqrt (real_of_int ((x2 - x1)\<^sup>2 + (y2 - y1)\<^sup>2)))"

text \<open>The third parameter, the grid, is not used by the source.\<close>

definition calculate_cost :: "cell \<Rightarrow> cell \<Rightarrow> grid \<Rightarrow> error + real" where
  "calculate_cost current neighbor grid =
     (case terrain_cost neighbor of
        Inl e \<Rightarrow> Inl e
      | Inr tc \<Rightarrow> Inr (distance_cost current neighbor * tc * slope_cost current neighbor))"





subsection \<open>The priority queue\<close>

text \<open>
  The heap of \<open>heapq\<close> is modelled by the list of its entries. The entries are tuples
  \<open>(priority, (x, y))\<close>, compared lexicographically as Python compares tuples;
  \<open>heappop\<close> removes and returns the least entry, and raises IndexError on an empty heap.
\<close>

type_synonym entry = "real \<times> coord"

definition heappush :: "entry list \<Rightarrow> entry \<Rightarrow> entry list" where
  "heappush h e = e # h"

definition heappop :: "entry list \<Rightarrow> error + (entry \<times> entry list)" where
  "heappop h =
     (case h of
        [] \<Rightarrow> Inl IndexError
      | e # es \<Rightarrow> (let m = fold min es e in Inr (m, remove1 m h)))"

subsection \<open>The search\<close>

record search_state =
  open_set :: "entry list"
  came_from :: "coord \<rightharpoonup> coord"
  cost_so_far :: "coord \<rightharpoonup> real"

text \<open>The body of the inner loop, for one offset \<open>(dx, dy)\<close>.\<close>

definition visit :: "grid \<Rightarrow> coord \<Rightarrow> search_state \<Rightarrow> int \<times> int \<Rightarrow> error + search_state" where
  "visit grid current st d =
     (let (x, y) = current; (dx, dy) = d; nx = x + dx; ny = y + dy in
      if 0 \<le> nx \<and> nx < GRID_SIZE \<and> 0 \<le> ny \<and> ny < GRID_SIZE then
        (case grid_at grid nx ny of
           Inl e \<Rightarrow> Inl e
         | Inr neighbor \<Rightarrow>
        (case dict_get (cost_so_far st) current of
           Inl e \<Rightarrow> Inl e
         | Inr c \<Rightarrow>
        (case grid_at grid x y of
           Inl e \<Rightarrow> Inl e
         | Inr here \<Rightarrow>
        (case calculate_cost here neighbor grid of
           Inl e \<Rightarrow> Inl e
         | Inr step \<Rightarrow>
             (let new_cost = c + step in
              if (case cost_so_far st (nx, ny) of None \<Rightarrow> True | Some old \<Rightarrow> new_cost < old)
              then
                (let priority =
                   new_cost + sqrt (real_of_int ((fst TARGET - nx)\<^sup>2 + (snd TARGET - ny)\<^sup>2))
                 in Inr (st\<lparr>cost_so_far := (cost_so_far st)((nx, ny) \<mapsto> new_cost),
                           open_set := heappush (open_set st) (priority, (nx, ny)),
                           came_from := (came_from st)((nx, ny) \<mapsto> current)\<rparr>))
              else Inr st)))))
      else Inr st)"

text \<open>The inner loop: the offsets in order, stopping at the first exception.\<close>

fun visit_all :: "grid \<Rightarrow> coord \<Rightarrow> search_state \<Rightarrow> (int \<times> int) list \<Rightarrow> error + search_state" where
  "visit_all grid current st [] = Inr st"
| "visit_all grid current st (d # ds) =
     (case visit grid current st d of
        Inl e \<Rightarrow> Inl e
      | Inr st' \<Rightarrow> visit_all grid current st' ds)"

definition offsets :: "(int \<times> int) list" where
  "offsets = [(- 1, 0), (1, 0), (0, - 1), (0, 1)]"

text \<open>
  One pass through the body of the \<open>while\<close> loop, entered with a non-empty heap: the
  result is \<open>Inl\<close> when the loop is left (by \<open>break\<close> with the two dictionaries, or by
  an exception) and \<open>Inr\<close> with the next state when it goes on.
\<close>

type_synonym search_result = "(coord \<rightharpoonup> coord) \<times> (coord \<rightharpoonup> real)"

definition iteration ::
  "grid \<Rightarrow> coord \<Rightarrow> search_state \<Rightarrow> (error + search_result) + search_state" where
  "iteration grid target st =
     (case heappop (open_set st) of
        Inl e \<Rightarrow> Inl (Inl e)
      | Inr (least, rest) \<Rightarrow>
          (let current = snd least in
           if current = target then Inl (Inr (came_from st, cost_so_far st))
           else
             (case visit_all grid current (st\<lparr>open_set := rest\<rparr>) offsets of
                Inl e \<Rightarrow> Inl (Inl e)
              | Inr st' \<Rightarrow> Inr st')))"

text \<open>The \<open>while\<close> loop. A run that never leaves the loop has the value \<open>None\<close>.\<close>

partial_function (option) search_loop ::
  "grid \<Rightarrow> coord \<Rightarrow> search_state \<Rightarrow> (error + search_result) option" where
  "search_loop grid target st =
     (if open_set st = [] then Some (Inr (came_from st, cost_so_far st))
      else
        (case iteration grid target st of
           Inl r \<Rightarrow> Some r
         | Inr st' \<Rightarrow> search_loop grid target st'))"

definition initial_state :: "coord \<Rightarrow> search_state" where
  "initial_state start =
     \<lparr>open_set = heappush [] (0, start), came_from = Map.empty, cost_so_far = [start \<mapsto> 0]\<rparr>"

definition find_fastest_path :: "grid \<Rightarrow> coord \<Rightarrow> coord \<Rightarrow> (error + search_result) option" where
  "find_fastest_path grid start target = search_loop grid target (initial_state start)"

subsection \<open>Path reconstruction\<close>

text \<open>The loop of \<open>reconstruct_path\<close>, with the variables \<open>current\<close> and \<open>path\<close> as arguments.\<close>

partial_function (option) reconstruct_loop ::
  "(coord \<rightharpoonup> coord) \<Rightarrow> coord \<Rightarrow> coord \<Rightarrow> coord list \<Rightarrow> (error + coord list) option" where
  "reconstruct_loop cf start current path =
     (if current \<noteq> start then
        (case dict_get cf current of
           Inl e \<Rightarrow> Some (Inl e)
         | Inr previous \<Rightarrow> reconstruct_loop cf start previous (path @ [current]))
      else Some (Inr (rev (path @ [start]))))"

definition reconstruct_path ::
  "(coord \<rightharpoonup> coord) \<Rightarrow> coord \<Rightarrow> coord \<Rightarrow> (error + coord list) option" where
  "reconstruct_path cf start target = reconstruct_loop cf start target []"

subsection \<open>Auxiliary notions for the statements\<close>

text \<open>
  The chain of predecessors that \<open>reconstruct_path\<close> walks: \<open>follow cf n c\<close> is the
  coordinate reached from \<open>c\<close> after \<open>n\<close> reads of the predecessor map, \<open>None\<close> when one
  of the reads finds no entry.
\<close>

fun follow :: "(coord \<rightharpoonup> coord) \<Rightarrow> nat \<Rightarrow> coord \<Rightarrow> coord option" where
  "follow cf 0 c = Some c"
| "follow cf (Suc n) c = (case cf c of None \<Rightarrow> None | Some p \<Rightarrow> follow cf n p)"

text \<open>
  The state of the \<open>while\<close> loop after \<open>n\<close> passes through its body, \<open>None\<close> when the
  loop was left before.
\<close>

fun run :: "grid \<Rightarrow> coord \<Rightarrow> nat \<Rightarrow> search_state \<Rightarrow> search_state option" where
  "run grid target 0 st = Some st"
| "run grid target (Suc n) st =
     (if open_set st = [] then None
      else
        (case iteration grid target st of
           Inl r \<Rightarrow> None
         | Inr st' \<Rightarrow> run grid target n st'))"

text \<open>
  A grid of the given shape whose cells carry their own indices as coordinates, as
  \<open>generate_grid\<close> writes them, and all have the same terrain code and height.
\<close>

definition uniform_grid :: "nat \<Rightarrow> nat \<Rightarrow> int \<Rightarrow> real \<Rightarrow> grid" where
  "uniform_grid rows cols t h =
     map (\<lambda>x. map (\<lambda>y. \<lparr>coordinates = (int x, int y), terrain = t, height = h\<rparr>) [0..<cols])
       [0..<rows]"

text \<open>
  The number of heap entries for a coordinate. The inner loop pushes one entry with every
  write to \<open>cost_so_far\<close>, so the entries for a key count the writes to it.
\<close>

definition pushes_of :: "coord \<Rightarrow> entry list \<Rightarrow> nat" where
  "pushes_of k h = length (filter (\<lambda>e. snd e = k) h)"

subsection \<open>Notions for the invariants of the search\<close>

text \<open>The neighbor test of the inner loop, on a coordinate pair.\<close>

definition in_range :: "coord \<Rightarrow> bool" where
  "in_range c = (0 \<le> fst c \<and> fst c < GRID_SIZE \<and> 0 \<le> snd c \<and> snd c < GRID_SIZE)"

text \<open>The coordinates that can become keys of \<open>cost_so_far\<close> in a search from \<open>start\<close>.\<close>

definition cells :: "coord \<Rightarrow> coord set" where
  "cells start = insert start {c. in_range c}"

text \<open>
  The cost the inner loop adds for the step from \<open>a\<close> to \<open>b\<close> (\<open>0\<close> where one of its reads
  would raise), and the cost of a route, listed from its last coordinate back to its first.
\<close>

definition step_cost :: "grid \<Rightarrow> coord \<Rightarrow> coord \<Rightarrow> real" where
  "step_cost grid a b =
     (case grid_at grid (fst a) (snd a) of
        Inl e \<Rightarrow> 0
      | Inr here \<Rightarrow>
          (case grid_at grid (fst b) (snd b) of
             Inl e \<Rightarrow> 0
           | Inr neighbor \<Rightarrow>
               (case calculate_cost here neighbor grid of Inl e \<Rightarrow> 0 | Inr s \<Rightarrow> s)))"

fun route_cost :: "grid \<Rightarrow> coord list \<Rightarrow> real" where
  "route_cost grid (b # a # r) = step_cost grid a b + route_cost grid (a # r)"
| "route_cost grid r = 0"

text \<open>
  The invariant of \<open>cost_so_far\<close>: every recorded value is the cost of a route without
  repeated coordinates that ends at its key, and every earlier coordinate of that route
  has a recorded value no larger than the cost of the route up to it.
\<close>

fun covered :: "grid \<Rightarrow> (coord \<rightharpoonup> real) \<Rightarrow> coord list \<Rightarrow> bool" where
  "covered grid cs [] = True"
| "covered grid cs (a # r) =
     ((case cs a of None \<Rightarrow> False | Some u \<Rightarrow> u \<le> route_cost grid (a # r)) \<and> covered grid cs r)"

definition backed :: "grid \<Rightarrow> coord \<Rightarrow> (coord \<rightharpoonup> real) \<Rightarrow> bool" where
  "backed grid start cs =
     (\<forall>n v. cs n = Some v \<longrightarrow>
        (\<exists>p. distinct (n # p) \<and> set (n # p) \<subseteq> cells start \<and>
             route_cost grid (n # p) = v \<and> covered grid cs p))"

text \<open>
  The measure of the loop: the finitely many costs of routes without repetition, the
  number of them below the recorded value of a key (one more than all of them for a key
  with no value), summed over the keys; and the order on states it gives together with
  the size of the heap.
\<close>

definition costs :: "grid \<Rightarrow> coord \<Rightarrow> real set" where
  "costs grid start = route_cost grid ` {p. set p \<subseteq> cells start \<and> distinct p}"

definition rank :: "grid \<Rightarrow> coord \<Rightarrow> (coord \<rightharpoonup> real) \<Rightarrow> coord \<Rightarrow> nat" where
  "rank grid start cs n =
     (case cs n of
        None \<Rightarrow> Suc (card (costs grid start))
      | Some v \<Rightarrow> card {x \<in> costs grid start. x < v})"

definition potential :: "grid \<Rightarrow> coord \<Rightarrow> (coord \<rightharpoonup> real) \<Rightarrow> nat" where
  "potential grid start cs = (\<Sum>n \<in> cells start. rank grid start cs n)"

definition loop_order :: "grid \<Rightarrow> coord \<Rightarrow> (search_state \<times> search_state) set" where
  "loop_order g start =
     inv_image (less_than <*lex*> less_than)
       (\<lambda>s. (potential g start (cost_so_far s), length (open_set s)))"




definition keys_in_range :: "coord \<Rightarrow> search_state \<Rightarrow> bool" where
  "keys_in_range start st =
     ((\<forall>k v. cost_so_far st k = Some v \<longrightarrow> k = start \<or> in_range k) \<and>
      (\<forall>k p. came_from st k = Some p \<longrightarrow> in_range k))"

section \<open>Properties\<close>

subsection \<open>The cost model\<close>

lemma terrain_types_cases:
  "terrain_types t = (if t = 0 then Some ''sand'' else if t = 1 then Some ''mud''
     else if t = 2 then Some ''asphalt'' else None)"
  by (simp add: terrain_types_def)

lemma terrain_cost_cases:
  "terrain_cost n = (if terrain n = 0 then Inr (10 / 7) else if terrain n = 1 then Inr (10 / 4)
     else if terrain n = 2 then Inr (10 / 15) else Inl KeyError)"
  by (simp add: terrain_cost_def dict_get_def terrain_types_def TERRAIN_SPEED_def)

lemma slope_cost_ge_1: "1 \<le> slope_cost a b"
  by (simp add: slope_cost_def SLOPE_LIMIT_def)

lemma distance_cost_nonneg: "0 \<le> distance_cost a b"
  by (simp add: distance_cost_def split: prod.splits)

lemma distance_cost_commute: "distance_cost a b = distance_cost b a"
  by (simp add: distance_cost_def power2_commute split: prod.splits)

lemma slope_cost_commute: "slope_cost a b = slope_cost b a"
  by (simp add: slope_cost_def abs_minus_commute)







text \<open>
  Claim C8. The slope factor is the same in both directions. The terrain factor is
  read from the neighbor's terrain code alone, so two neighbors with the same code give
  the same factor, and \<open>cost(a, b)\<close> and \<open>cost(b, a)\<close> are one common factor times the
  terrain factor of \<open>b\<close>, respectively of \<open>a\<close>; between an asphalt cell and a mud cell of
  equal height the two directions cost \<open>5 / 2\<close> and \<open>2 / 3\<close>.
\<close>

theorem slope_symmetric_terrain_of_neighbor:
  "slope_cost a b = slope_cost b a \<and>
   (terrain b = terrain b' \<longrightarrow> terrain_cost b = terrain_cost b') \<and>
   (\<forall>ta tb. terrain_cost a = Inr ta \<and> terrain_cost b = Inr tb \<longrightarrow>
      (\<exists>s. calculate_cost a b g = Inr (s * tb) \<and> calculate_cost b a g = Inr (s * ta))) \<and>
   calculate_cost \<lparr>coordinates = (0, 0), terrain = 2, height = 0\<rparr>
     \<lparr>coordinates = (1, 0), terrain = 1, height = 0\<rparr> g = Inr (5 / 2) \<and>
   calculate_cost \<lparr>coordinates = (1, 0), terrain = 1, height = 0\<rparr>
     \<lparr>coordinates = (0, 0), terrain = 2, height = 0\<rparr> g = Inr (2 / 3)"
proof (intro conjI allI impI)
  show "slope_cost a b = slope_cost b a" by (rule slope_cost_commute)
next
  assume "terrain b = terrain b'"
  then show "terrain_cost b = terrain_cost b'"
    by (simp add: terrain_cost_def)
next
  fix ta tb
  assume t: "terrain_cost a = Inr ta \<and> terrain_cost b = Inr tb"
  have "calculate_cost a b g = Inr (distance_cost a b * slope_cost a b * tb)"
    using t by (simp add: calculate_cost_def)
  moreover have "calculate_cost b a g = Inr (distance_cost a b * slope_cost a b * ta)"
    using t by (simp add: calculate_cost_def distance_cost_commute [of b a] slope_cost_commute [of b a])
  ultimately show "\<exists>s. calculate_cost a b g = Inr (s * tb) \<and> calculate_cost b a g = Inr (s * ta)"
    by blast
next
  show "calculate_cost \<lparr>coordinates = (0, 0), terrain = 2, height = 0\<rparr>
     \<lparr>coordinates = (1, 0), terrain = 1, height = 0\<rparr> g = Inr (5 / 2)"
    by (simp add: calculate_cost_def terrain_cost_cases distance_cost_def slope_cost_def)
next
  show "calculate_cost \<lparr>coordinates = (1, 0), terrain = 1, height = 0\<rparr>
     \<lparr>coordinates = (0, 0), terrain = 2, height = 0\<rparr> g = Inr (2 / 3)"
    by (simp add: calculate_cost_def terrain_cost_cases distance_cost_def slope_cost_def)
qed

theorem slope_symmetric_terrain_of_neighbor_witness:
  "terrain \<lparr>coordinates = (1, 0), terrain = 1, height = 1 / 10\<rparr> =
     terrain \<lparr>coordinates = (5, 7), terrain = 1, height = 0\<rparr> \<and>
   terrain_cost \<lparr>coordinates = (1, 0), terrain = 1, height = 1 / 10\<rparr> =
     terrain_cost \<lparr>coordinates = (5, 7), terrain = 1, height = 0\<rparr> \<and>
   slope_cost \<lparr>coordinates = (0, 0), terrain = 2, height = 0\<rparr>
     \<lparr>coordinates = (1, 0), terrain = 1, height = 1 / 10\<rparr> = 3 / 2 \<and>
   slope_cost \<lparr>coordinates = (1, 0), terrain = 1, height = 1 / 10\<rparr>
     \<lparr>coordinates = (0, 0), terrain = 2, height = 0\<rparr> = 3 / 2"
  using slope_symmetric_terrain_of_neighbor [of "\<lparr>coordinates = (0, 0), terrain = 2, height = 0\<rparr>"
      "\<lparr>coordinates = (1, 0), terrain = 1, height = 1 / 10\<rparr>"
      "\<lparr>coordinates = (5, 7), terrain = 1, height = 0\<rparr>" "[]"]
  by (simp add: slope_cost_def SLOPE_LIMIT_def)

subsection \<open>Path reconstruction\<close>

lemma reconstruct_loop_KeyError:
  "follow cf n c = None \<Longrightarrow> \<forall>k. follow cf k c \<noteq> Some start \<Longrightarrow>
   reconstruct_loop cf start c path = Some (Inl KeyError)"
proof (induction n arbitrary: c path)
  case 0
  then show ?case by simp
next
  case (Suc n)
  from Suc.prems(2) have "follow cf 0 c \<noteq> Some start" by blast
  then have ne: "c \<noteq> start" by simp
  show ?case
  proof (cases "cf c")
    case None
    with ne show ?thesis
      by (subst reconstruct_loop.simps) (simp add: dict_get_def)
  next
    case (Some p)
    with Suc.prems(1) have "follow cf n p = None" by simp
    moreover have "\<forall>k. follow cf k p \<noteq> Some start"
    proof
      fix k
      from Suc.prems(2) have "follow cf (Suc k) c \<noteq> Some start" by blast
      with Some show "follow cf k p \<noteq> Some start" by simp
    qed
    ultimately have "reconstruct_loop cf start p (path @ [c]) = Some (Inl KeyError)"
      by (rule Suc.IH)
    with ne Some show ?thesis
      by (subst reconstruct_loop.simps) (simp add: dict_get_def)
  qed
qed

lemma reconstruct_loop_returns:
  assumes ret: "reconstruct_loop cf0 start0 c0 path0 = Some r0"
  shows "(\<forall>n. follow cf0 n c0 \<noteq> None) \<longrightarrow> (\<exists>k. follow cf0 k c0 = Some start0)"
proof (rule reconstruct_loop.raw_induct [where P = "\<lambda>cf start c path r.
    (\<forall>n. follow cf n c \<noteq> None) \<longrightarrow> (\<exists>k. follow cf k c = Some start)", OF _ ret])
  fix loop :: "(coord \<rightharpoonup> coord) \<Rightarrow> coord \<Rightarrow> coord \<Rightarrow> coord list \<Rightarrow> (error + coord list) option"
  fix cf start c path r
  assume IH: "\<And>cf start c path r. loop cf start c path = Some r \<Longrightarrow>
     (\<forall>n. follow cf n c \<noteq> None) \<longrightarrow> (\<exists>k. follow cf k c = Some start)"
  assume eq: "(if c \<noteq> start
      then case dict_get cf c of Inl e \<Rightarrow> Some (Inl e)
           | Inr previous \<Rightarrow> loop cf start previous (path @ [c])
      else Some (Inr (rev (path @ [start])))) = Some r"
  show "(\<forall>n. follow cf n c \<noteq> None) \<longrightarrow> (\<exists>k. follow cf k c = Some start)"
  proof
    assume total: "\<forall>n. follow cf n c \<noteq> None"
    show "\<exists>k. follow cf k c = Some start"
    proof (cases "c = start")
      case True
      then have "follow cf 0 c = Some start" by simp
      then show ?thesis by blast
    next
      case False
      from total have "follow cf (Suc 0) c \<noteq> None" by blast
      then obtain p where p: "cf c = Some p" by (auto split: option.splits)
      with False eq have "loop cf start p (path @ [c]) = Some r"
        by (simp add: dict_get_def)
      then have "(\<forall>n. follow cf n p \<noteq> None) \<longrightarrow> (\<exists>k. follow cf k p = Some start)"
        by (rule IH)
      moreover have "\<forall>n. follow cf n p \<noteq> None"
      proof
        fix n
        from total have "follow cf (Suc n) c \<noteq> None" by blast
        with p show "follow cf n p \<noteq> None" by simp
      qed
      ultimately obtain k where "follow cf k p = Some start" by blast
      with p have "follow cf (Suc k) c = Some start" by simp
      then show ?thesis by blast
    qed
  qed
qed

lemma reconstruct_loop_reaches:
  "follow cf n c = Some start \<Longrightarrow> \<exists>p. reconstruct_loop cf start c path = Some (Inr p)"
proof (induction n arbitrary: c path)
  case 0
  then show ?case by (subst reconstruct_loop.simps) simp
next
  case (Suc n)
  show ?case
  proof (cases "c = start")
    case True
    then show ?thesis by (subst reconstruct_loop.simps) simp
  next
    case False
    from Suc.prems obtain p where p: "cf c = Some p" and "follow cf n p = Some start"
      by (auto split: option.splits)
    then obtain q where "reconstruct_loop cf start p (path @ [c]) = Some (Inr q)"
      using Suc.IH by blast
    with False p show ?thesis
      by (subst reconstruct_loop.simps) (simp add: dict_get_def)
  qed
qed

lemma follow_empty: "follow Map.empty n c = (if n = 0 then Some c else None)"
  by (cases n) simp_all

lemma follow_self_loop: "follow [c \<mapsto> c] n c = Some c"
  by (induction n) simp_all

text \<open>
  Claim C2, as the code has it. When the chain of predecessors from \<open>target\<close> never
  reaches \<open>start\<close>, \<open>reconstruct_path\<close> reports no typed "no path" condition: it raises
  KeyError when the chain ends at a coordinate that has no entry in the predecessor map,
  and it does not return when the chain never ends (a cyclic map).
\<close>

theorem reconstruct_path_no_path:
  assumes "\<forall>n. follow cf n target \<noteq> Some start"
  shows "reconstruct_path cf start target =
    (if \<exists>n. follow cf n target = None then Some (Inl KeyError) else None)"
proof (cases "\<exists>n. follow cf n target = None")
  case True
  then obtain n where "follow cf n target = None" by blast
  from this assms have "reconstruct_loop cf start target [] = Some (Inl KeyError)"
    by (rule reconstruct_loop_KeyError)
  with True show ?thesis by (simp add: reconstruct_path_def)
next
  case False
  have "reconstruct_loop cf start target [] = None"
  proof (rule ccontr)
    assume "reconstruct_loop cf start target [] \<noteq> None"
    then obtain r where "reconstruct_loop cf start target [] = Some r" by blast
    from reconstruct_loop_returns [OF this] False assms show False by auto
  qed
  with False show ?thesis by (simp add: reconstruct_path_def)
qed

theorem reconstruct_path_no_path_witness:
  "(\<forall>n. follow Map.empty n (1, 1) \<noteq> Some (0, 0)) \<and>
   reconstruct_path Map.empty (0, 0) (1, 1) = Some (Inl KeyError)"
proof -
  have h: "\<forall>n. follow Map.empty n (1, 1) \<noteq> Some (0, 0)"
    by (simp add: follow_empty)
  have "\<exists>n. follow Map.empty n (1, 1) = None"
    by (rule exI [of _ 1]) simp
  with reconstruct_path_no_path [OF h] h show ?thesis by simp
qed

text \<open>
  The claim C2 as stated fails: on a map where \<open>(1, 1)\<close> is its own predecessor the loop
  never ends, and on a map whose chain from \<open>(1, 1)\<close> ends at \<open>(2, 2)\<close> the error is the
  KeyError of the dictionary read.
\<close>

theorem reconstruct_path_counterexample:
  "reconstruct_path [(1, 1) \<mapsto> (1, 1)] (0, 0) (1, 1) = None \<and>
   reconstruct_path [(1, 1) \<mapsto> (2, 2)] (0, 0) (1, 1) = Some (Inl KeyError)"
proof
  have "reconstruct_loop [(1, 1) \<mapsto> (1, 1)] (0, 0) (1, 1) [] = None"
  proof (rule ccontr)
    assume "reconstruct_loop [(1, 1) \<mapsto> (1, 1)] (0, 0) (1, 1) [] \<noteq> None"
    then obtain r where "reconstruct_loop [(1, 1) \<mapsto> (1, 1)] (0, 0) (1, 1) [] = Some r"
      by blast
    from reconstruct_loop_returns [OF this]
    obtain k where "follow [(1, 1) \<mapsto> (1, 1)] k (1, 1) = Some (0, 0)"
      by (auto simp add: follow_self_loop)
    then show False by (simp add: follow_self_loop)
  qed
  then show "reconstruct_path [(1, 1) \<mapsto> (1, 1)] (0, 0) (1, 1) = None"
    by (simp add: reconstruct_path_def)
next
  show "reconstruct_path [(1, 1) \<mapsto> (2, 2)] (0, 0) (1, 1) = Some (Inl KeyError)"
    by (simp add: reconstruct_path_def reconstruct_loop.simps dict_get_def)
qed

subsection \<open>The search\<close>

lemma heappop_single: "heappop [e] = Inr (e, [])"
  by (simp add: heappop_def)

text \<open>
  Claim C7. With \<open>start = target\<close> the search leaves the loop at the first pop: it
  returns an empty predecessor map and the cost map \<open>{s: 0}\<close>, and \<open>reconstruct_path\<close> on
  that predecessor map returns the path \<open>[s]\<close>. This holds for every grid and every
  coordinate \<open>s\<close>, in bounds or not.
\<close>

theorem self_path:
  "find_fastest_path grid s s = Some (Inr (Map.empty, [s \<mapsto> 0])) \<and>
   reconstruct_path Map.empty s s = Some (Inr [s]) \<and>
   [s \<mapsto> (0::real)] s = Some 0"
  by (simp add: find_fastest_path_def initial_state_def heappush_def search_loop.simps
      iteration_def heappop_single reconstruct_path_def reconstruct_loop.simps)

lemma visit_cost_write:
  assumes "visit grid current st d = Inr st'" and "cost_so_far st k = Some v"
  shows "\<exists>v'. cost_so_far st' k = Some v' \<and> (if cost_so_far st' k = cost_so_far st k then v' = v else v' < v)"
  using assms
  by (auto simp add: visit_def Let_def split: prod.splits sum.splits if_splits option.splits)

lemma visit_cost_mono:
  assumes "visit grid current st d = Inr st'" and "cost_so_far st k = Some v"
  shows "\<exists>v'. cost_so_far st' k = Some v' \<and> v' \<le> v"
  using visit_cost_write [OF assms] by (auto split: if_splits)

lemma visit_all_cost_mono:
  "visit_all grid current st ds = Inr st' \<Longrightarrow> cost_so_far st k = Some v \<Longrightarrow>
   \<exists>v'. cost_so_far st' k = Some v' \<and> v' \<le> v"
proof (induction ds arbitrary: st v)
  case Nil
  then show ?case by simp
next
  case (Cons d ds)
  from Cons.prems(1) obtain st1 where v1: "visit grid current st d = Inr st1"
    and rest: "visit_all grid current st1 ds = Inr st'"
    by (auto split: sum.splits)
  from visit_cost_mono [OF v1 Cons.prems(2)] obtain v1' where
    "cost_so_far st1 k = Some v1'" and "v1' \<le> v" by blast
  with Cons.IH [OF rest] show ?case by fastforce
qed

lemma iteration_cost_mono:
  assumes "iteration grid target st = Inr st'" and "cost_so_far st k = Some v"
  shows "\<exists>v'. cost_so_far st' k = Some v' \<and> v' \<le> v"
proof -
  from assms(1) obtain least rest where
    "visit_all grid (snd least) (st\<lparr>open_set := rest\<rparr>) offsets = Inr st'"
    by (auto simp add: iteration_def Let_def split: sum.splits prod.splits if_splits)
  from visit_all_cost_mono [OF this, of k v] assms(2) show ?thesis by simp
qed

lemma run_cost_mono:
  "run grid target n st = Some st' \<Longrightarrow> cost_so_far st k = Some v \<Longrightarrow>
   \<exists>v'. cost_so_far st' k = Some v' \<and> v' \<le> v"
proof (induction n arbitrary: st v)
  case 0
  then show ?case by simp
next
  case (Suc n)
  from Suc.prems(1) obtain st1 where it: "iteration grid target st = Inr st1"
    and rest: "run grid target n st1 = Some st'"
    by (auto split: if_splits sum.splits)
  from iteration_cost_mono [OF it Suc.prems(2)] obtain v1 where
    "cost_so_far st1 k = Some v1" and "v1 \<le> v" by blast
  with Suc.IH [OF rest] show ?case by fastforce
qed

lemma run_add:
  "run grid target (i + j) st =
     (case run grid target i st of None \<Rightarrow> None | Some s \<Rightarrow> run grid target j s)"
  by (induction i arbitrary: st) (auto split: sum.splits)

lemma search_loop_run:
  assumes ret: "search_loop grid0 target0 st0 = Some (Inr (cf0, cs0))"
  shows "\<exists>n s. run grid0 target0 n st0 = Some s \<and> run grid0 target0 (Suc 0) s = None \<and>
    cf0 = came_from s \<and> cs0 = cost_so_far s"
proof -
  have "\<forall>cf cs. r0 = Inr (cf, cs) \<longrightarrow>
      (\<exists>n s. run grid0 target0 n st0 = Some s \<and> run grid0 target0 (Suc 0) s = None \<and>
        cf = came_from s \<and> cs = cost_so_far s)"
    if "search_loop grid0 target0 st0 = Some r0" for r0
  proof (rule search_loop.raw_induct [where P = "\<lambda>grid target st r.
      \<forall>cf cs. r = Inr (cf, cs) \<longrightarrow>
        (\<exists>n s. run grid target n st = Some s \<and> run grid target (Suc 0) s = None \<and>
          cf = came_from s \<and> cs = cost_so_far s)", OF _ that])
    fix loop :: "grid \<Rightarrow> coord \<Rightarrow> search_state \<Rightarrow> (error + search_result) option"
    fix grid target st r
    assume IH: "\<And>grid target st r. loop grid target st = Some r \<Longrightarrow>
      \<forall>cf cs. r = Inr (cf, cs) \<longrightarrow>
        (\<exists>n s. run grid target n st = Some s \<and> run grid target (Suc 0) s = None \<and>
          cf = came_from s \<and> cs = cost_so_far s)"
    assume eq: "(if open_set st = [] then Some (Inr (came_from st, cost_so_far st))
        else case iteration grid target st of Inl r \<Rightarrow> Some r
             | Inr st' \<Rightarrow> loop grid target st') = Some r"
    show "\<forall>cf cs. r = Inr (cf, cs) \<longrightarrow>
        (\<exists>n s. run grid target n st = Some s \<and> run grid target (Suc 0) s = None \<and>
          cf = came_from s \<and> cs = cost_so_far s)"
    proof (intro allI impI)
      fix cf cs
      assume r: "r = Inr (cf, cs)"
      show "\<exists>n s. run grid target n st = Some s \<and> run grid target (Suc 0) s = None \<and>
          cf = came_from s \<and> cs = cost_so_far s"
      proof (cases "open_set st = []")
        case True
        with eq r have "run grid target 0 st = Some st \<and> run grid target (Suc 0) st = None \<and>
            cf = came_from st \<and> cs = cost_so_far st"
          by simp
        then show ?thesis by blast
      next
        case False
        show ?thesis
        proof (cases "iteration grid target st")
          case (Inl res)
          with False eq r have "res = Inr (cf, cs)" by simp
          with Inl have "cf = came_from st \<and> cs = cost_so_far st"
            by (auto simp add: iteration_def Let_def split: sum.splits prod.splits if_splits)
          with Inl have "run grid target 0 st = Some st \<and> run grid target (Suc 0) st = None \<and>
              cf = came_from st \<and> cs = cost_so_far st"
            by simp
          then show ?thesis by blast
        next
          case (Inr st')
          with False eq have "loop grid target st' = Some r" by simp
          from IH [OF this] r obtain n s where
            "run grid target n st' = Some s" and "run grid target (Suc 0) s = None" and
            "cf = came_from s" and "cs = cost_so_far s"
            by blast
          with False Inr have
            "run grid target (Suc n) st = Some s \<and> run grid target (Suc 0) s = None \<and>
              cf = came_from s \<and> cs = cost_so_far s"
            by simp
          then show ?thesis by blast
        qed
      qed
    qed
  qed
  from this [OF ret] show ?thesis by blast
qed

lemma run_after_end:
  assumes "run grid target (Suc 0) s = None"
  shows "run grid target (Suc m) s = None"
  using assms by (auto split: if_splits sum.splits)

lemma result_cost_mono:
  assumes res: "search_loop grid target st = Some (Inr (cf, cs))"
    and mid: "run grid target i st = Some si"
    and v: "cost_so_far si k = Some v"
  shows "\<exists>v'. cs k = Some v' \<and> v' \<le> v"
proof -
  from search_loop_run [OF res] obtain n s where
    n: "run grid target n st = Some s" and fin: "run grid target (Suc 0) s = None" and
    cs: "cs = cost_so_far s"
    by blast
  have "i \<le> n"
  proof (rule ccontr)
    assume "\<not> i \<le> n"
    then obtain m where i: "i = n + Suc m"
      by (metis add_Suc_right less_imp_Suc_add not_le_imp_less)
    from run_add [of grid target n "Suc m" st] n run_after_end [OF fin, of m]
    have "run grid target (n + Suc m) st = None" by simp
    with mid i show False by simp
  qed
  then obtain j where "n = i + j" using le_Suc_ex by blast
  with run_add [of grid target i j st] mid n have "run grid target j si = Some s" by simp
  from run_cost_mono [OF this v] cs show ?thesis by simp
qed

lemma grid_at_uniform:
  assumes "0 \<le> i" "i < int rows" "0 \<le> j" "j < int cols"
  shows "grid_at (uniform_grid rows cols t h) i j =
    Inr \<lparr>coordinates = (i, j), terrain = t, height = h\<rparr>"
proof -
  from assms have "nat i < rows" and "nat j < cols" by linarith+
  with assms show ?thesis
    by (simp add: grid_at_def axis_index_def uniform_grid_def)
qed


lemma grid_at_uniform_col_out:
  assumes "0 \<le> i" "i < int rows" "int cols \<le> j"
  shows "grid_at (uniform_grid rows cols t h) i j = Inl IndexError"
  using assms by (simp add: grid_at_def axis_index_def uniform_grid_def)

lemma calculate_cost_asphalt_flat:
  assumes "\<bar>x2 - x1\<bar> + \<bar>y2 - y1\<bar> = 1"
  shows "calculate_cost \<lparr>coordinates = (x1, y1), terrain = t, height = h\<rparr>
     \<lparr>coordinates = (x2, y2), terrain = 2, height = h\<rparr> g = Inr (2 / 3)"
proof -
  from assms have "(x2 - x1 = 0 \<and> (y2 - y1 = 1 \<or> y2 - y1 = - 1)) \<or>
      ((x2 - x1 = 1 \<or> x2 - x1 = - 1) \<and> y2 - y1 = 0)"
    by linarith
  then have "(x2 - x1)\<^sup>2 + (y2 - y1)\<^sup>2 = 1"
    by auto
  then have "real_of_int ((x2 - x1)\<^sup>2 + (y2 - y1)\<^sup>2) = 1" by simp
  then show ?thesis
    by (simp add: calculate_cost_def terrain_cost_cases distance_cost_def slope_cost_def
        del: of_int_add of_int_power of_int_diff)
qed

text \<open>
  Claim C1 fails on the code: the priority is computed from the module constant
  \<open>TARGET = (50, 50)\<close>, not from the \<open>target\<close> argument. On the flat all-asphalt
  \<open>100 \<times> 100\<close> grid with \<open>start = (0, 0)\<close> and \<open>target = (0, 3)\<close>, the first pass of the loop
  pushes the neighbors \<open>(1, 0)\<close> and \<open>(0, 1)\<close> with the priority \<open>2 / 3 + sqrt 4901\<close>, the
  cost plus the distance to \<open>(50, 50)\<close>; the distances to the target argument are
  \<open>sqrt 10\<close> and \<open>2\<close>.
\<close>

theorem heuristic_uses_TARGET:
  "iteration (uniform_grid 100 100 2 0) (0, 3) (initial_state (0, 0)) =
     Inr \<lparr>open_set = [(2 / 3 + sqrt 4901, (0, 1)), (2 / 3 + sqrt 4901, (1, 0))],
          came_from = [(1, 0) \<mapsto> (0, 0), (0, 1) \<mapsto> (0, 0)],
          cost_so_far = [(0, 0) \<mapsto> 0, (1, 0) \<mapsto> 2 / 3, (0, 1) \<mapsto> 2 / 3]\<rparr>"
  by (simp add: iteration_def initial_state_def heappush_def heappop_single offsets_def
      visit_def GRID_SIZE_def TARGET_def grid_at_uniform calculate_cost_asphalt_flat dict_get_def
      Let_def)

subsection \<open>The end-to-end example on a small grid\<close>

lemma sqrt_4901_lower: "70 < sqrt 4901"
  by (rule real_less_rsqrt) simp

lemma sqrt_4802_upper: "sqrt 4802 < 693 / 10"
  by (rule real_less_lsqrt) (simp_all add: power2_eq_square)

lemma sqrt_4804_lower: "6931 / 100 < sqrt 4804"
  by (rule real_less_rsqrt) (simp add: power2_eq_square)

lemma sqrt_4705_upper: "sqrt 4705 < 686 / 10"
  by (rule real_less_lsqrt) (simp_all add: power2_eq_square)

lemmas eval_simps = iteration_def heappush_def heappop_def offsets_def
      visit_def GRID_SIZE_def TARGET_def grid_at_uniform grid_at_uniform_col_out
     calculate_cost_asphalt_flat dict_get_def Let_def

lemma pass_1:
  "iteration (uniform_grid 3 3 2 0) (2, 2) (initial_state (0, 0)) =
     Inr \<lparr>open_set = [(2 / 3 + sqrt 4901, (0, 1)), (2 / 3 + sqrt 4901, (1, 0))],
          came_from = [(1, 0) \<mapsto> (0, 0), (0, 1) \<mapsto> (0, 0)],
          cost_so_far = [(0, 0) \<mapsto> 0, (1, 0) \<mapsto> 2 / 3, (0, 1) \<mapsto> 2 / 3]\<rparr>"
  by (simp add: eval_simps initial_state_def)

lemma pass_2:
  "iteration (uniform_grid 3 3 2 0) (2, 2)
     \<lparr>open_set = [(2 / 3 + sqrt 4901, (0, 1)), (2 / 3 + sqrt 4901, (1, 0))],
          came_from = [(1, 0) \<mapsto> (0, 0), (0, 1) \<mapsto> (0, 0)],
          cost_so_far = [(0, 0) \<mapsto> 0, (1, 0) \<mapsto> 2 / 3, (0, 1) \<mapsto> 2 / 3]\<rparr> =
     Inr \<lparr>open_set = [(4 / 3 + sqrt 4804, (0, 2)), (4 / 3 + sqrt 4802, (1, 1)),
                      (2 / 3 + sqrt 4901, (1, 0))],
          came_from = [(1, 0) \<mapsto> (0, 0), (0, 1) \<mapsto> (0, 0), (1, 1) \<mapsto> (0, 1), (0, 2) \<mapsto> (0, 1)],
          cost_so_far = [(0, 0) \<mapsto> 0, (1, 0) \<mapsto> 2 / 3, (0, 1) \<mapsto> 2 / 3, (1, 1) \<mapsto> 4 / 3,
                         (0, 2) \<mapsto> 4 / 3]\<rparr>"
  by (simp add: eval_simps min_def)

lemma pass_3:
  "iteration (uniform_grid 3 3 2 0) (2, 2)
     \<lparr>open_set = [(4 / 3 + sqrt 4804, (0, 2)), (4 / 3 + sqrt 4802, (1, 1)),
                      (2 / 3 + sqrt 4901, (1, 0))],
          came_from = [(1, 0) \<mapsto> (0, 0), (0, 1) \<mapsto> (0, 0), (1, 1) \<mapsto> (0, 1), (0, 2) \<mapsto> (0, 1)],
          cost_so_far = [(0, 0) \<mapsto> 0, (1, 0) \<mapsto> 2 / 3, (0, 1) \<mapsto> 2 / 3, (1, 1) \<mapsto> 4 / 3,
                         (0, 2) \<mapsto> 4 / 3]\<rparr> =
     Inr \<lparr>open_set = [(2 + sqrt 4705, (1, 2)), (2 + sqrt 4705, (2, 1)),
                      (4 / 3 + sqrt 4804, (0, 2)), (2 / 3 + sqrt 4901, (1, 0))],
          came_from = [(1, 0) \<mapsto> (0, 0), (0, 1) \<mapsto> (0, 0), (1, 1) \<mapsto> (0, 1), (0, 2) \<mapsto> (0, 1),
                       (2, 1) \<mapsto> (1, 1), (1, 2) \<mapsto> (1, 1)],
          cost_so_far = [(0, 0) \<mapsto> 0, (1, 0) \<mapsto> 2 / 3, (0, 1) \<mapsto> 2 / 3, (1, 1) \<mapsto> 4 / 3,
                         (0, 2) \<mapsto> 4 / 3, (2, 1) \<mapsto> 2, (1, 2) \<mapsto> 2]\<rparr>"
  using sqrt_4901_lower sqrt_4802_upper sqrt_4804_lower
  by (simp add: eval_simps min_def)

lemma pass_4:
  "iteration (uniform_grid 3 3 2 0) (2, 2)
     \<lparr>open_set = [(2 + sqrt 4705, (1, 2)), (2 + sqrt 4705, (2, 1)),
                      (4 / 3 + sqrt 4804, (0, 2)), (2 / 3 + sqrt 4901, (1, 0))],
          came_from = [(1, 0) \<mapsto> (0, 0), (0, 1) \<mapsto> (0, 0), (1, 1) \<mapsto> (0, 1), (0, 2) \<mapsto> (0, 1),
                       (2, 1) \<mapsto> (1, 1), (1, 2) \<mapsto> (1, 1)],
          cost_so_far = [(0, 0) \<mapsto> 0, (1, 0) \<mapsto> 2 / 3, (0, 1) \<mapsto> 2 / 3, (1, 1) \<mapsto> 4 / 3,
                         (0, 2) \<mapsto> 4 / 3, (2, 1) \<mapsto> 2, (1, 2) \<mapsto> 2]\<rparr> =
     Inl (Inl IndexError)"
  using sqrt_4901_lower sqrt_4705_upper sqrt_4804_lower
  by (simp add: eval_simps min_def)

text \<open>
  Claim C4 fails on the code: the neighbor test compares with \<open>GRID_SIZE = 100\<close>, not
  with the shape of the grid argument. On the flat all-asphalt \<open>3 \<times> 3\<close> grid with
  \<open>start = (0, 0)\<close> and \<open>target = (2, 2)\<close> the fourth pass of the loop expands \<open>(1, 2)\<close>,
  accepts the neighbor \<open>(1, 3)\<close> and reads \<open>grid[1, 3]\<close>: the search ends with IndexError
  and returns no path.
\<close>

theorem small_grid_IndexError:
  "find_fastest_path (uniform_grid 3 3 2 0) (0, 0) (2, 2) = Some (Inl IndexError)"
proof -
  have ne: "open_set (initial_state (0, 0)) \<noteq> []"
    by (simp add: initial_state_def heappush_def)
  show ?thesis
    unfolding find_fastest_path_def
    apply (subst search_loop.simps, simp add: pass_1 ne)
    apply (subst search_loop.simps, simp add: pass_2)
    apply (subst search_loop.simps, simp add: pass_3)
    apply (subst search_loop.simps, simp add: pass_4)
    done
qed

lemma sqrt_4705_lower: "6859 / 100 < sqrt 4705"
  by (rule real_less_rsqrt) (simp add: power2_eq_square)

lemma sqrt_4608_upper: "sqrt 4608 < 6789 / 100"
  by (rule real_less_lsqrt) (simp_all add: power2_eq_square)

lemma wide_pass_1:
  "iteration (uniform_grid 100 100 2 0) (2, 2) (initial_state (0, 0)) =
     Inr \<lparr>open_set = [(2 / 3 + sqrt 4901, (0, 1)), (2 / 3 + sqrt 4901, (1, 0))],
          came_from = [(1, 0) \<mapsto> (0, 0), (0, 1) \<mapsto> (0, 0)],
          cost_so_far = [(0, 0) \<mapsto> 0, (1, 0) \<mapsto> 2 / 3, (0, 1) \<mapsto> 2 / 3]\<rparr>"
  by (simp add: eval_simps initial_state_def)

lemma wide_pass_2:
  "iteration (uniform_grid 100 100 2 0) (2, 2)
     \<lparr>open_set = [(2 / 3 + sqrt 4901, (0, 1)), (2 / 3 + sqrt 4901, (1, 0))],
          came_from = [(1, 0) \<mapsto> (0, 0), (0, 1) \<mapsto> (0, 0)],
          cost_so_far = [(0, 0) \<mapsto> 0, (1, 0) \<mapsto> 2 / 3, (0, 1) \<mapsto> 2 / 3]\<rparr> =
     Inr \<lparr>open_set = [(4 / 3 + sqrt 4804, (0, 2)), (4 / 3 + sqrt 4802, (1, 1)),
                      (2 / 3 + sqrt 4901, (1, 0))],
          came_from = [(1, 0) \<mapsto> (0, 0), (0, 1) \<mapsto> (0, 0), (1, 1) \<mapsto> (0, 1), (0, 2) \<mapsto> (0, 1)],
          cost_so_far = [(0, 0) \<mapsto> 0, (1, 0) \<mapsto> 2 / 3, (0, 1) \<mapsto> 2 / 3, (1, 1) \<mapsto> 4 / 3,
                         (0, 2) \<mapsto> 4 / 3]\<rparr>"
  by (simp add: eval_simps min_def)

lemma wide_pass_3:
  "iteration (uniform_grid 100 100 2 0) (2, 2)
     \<lparr>open_set = [(4 / 3 + sqrt 4804, (0, 2)), (4 / 3 + sqrt 4802, (1, 1)),
                      (2 / 3 + sqrt 4901, (1, 0))],
          came_from = [(1, 0) \<mapsto> (0, 0), (0, 1) \<mapsto> (0, 0), (1, 1) \<mapsto> (0, 1), (0, 2) \<mapsto> (0, 1)],
          cost_so_far = [(0, 0) \<mapsto> 0, (1, 0) \<mapsto> 2 / 3, (0, 1) \<mapsto> 2 / 3, (1, 1) \<mapsto> 4 / 3,
                         (0, 2) \<mapsto> 4 / 3]\<rparr> =
     Inr \<lparr>open_set = [(2 + sqrt 4705, (1, 2)), (2 + sqrt 4705, (2, 1)),
                      (4 / 3 + sqrt 4804, (0, 2)), (2 / 3 + sqrt 4901, (1, 0))],
          came_from = [(1, 0) \<mapsto> (0, 0), (0, 1) \<mapsto> (0, 0), (1, 1) \<mapsto> (0, 1), (0, 2) \<mapsto> (0, 1),
                       (2, 1) \<mapsto> (1, 1), (1, 2) \<mapsto> (1, 1)],
          cost_so_far = [(0, 0) \<mapsto> 0, (1, 0) \<mapsto> 2 / 3, (0, 1) \<mapsto> 2 / 3, (1, 1) \<mapsto> 4 / 3,
                         (0, 2) \<mapsto> 4 / 3, (2, 1) \<mapsto> 2, (1, 2) \<mapsto> 2]\<rparr>"
  using sqrt_4901_lower sqrt_4802_upper sqrt_4804_lower
  by (simp add: eval_simps min_def)

lemma wide_pass_4:
  "iteration (uniform_grid 100 100 2 0) (2, 2)
     \<lparr>open_set = [(2 + sqrt 4705, (1, 2)), (2 + sqrt 4705, (2, 1)),
                      (4 / 3 + sqrt 4804, (0, 2)), (2 / 3 + sqrt 4901, (1, 0))],
          came_from = [(1, 0) \<mapsto> (0, 0), (0, 1) \<mapsto> (0, 0), (1, 1) \<mapsto> (0, 1), (0, 2) \<mapsto> (0, 1),
                       (2, 1) \<mapsto> (1, 1), (1, 2) \<mapsto> (1, 1)],
          cost_so_far = [(0, 0) \<mapsto> 0, (1, 0) \<mapsto> 2 / 3, (0, 1) \<mapsto> 2 / 3, (1, 1) \<mapsto> 4 / 3,
                         (0, 2) \<mapsto> 4 / 3, (2, 1) \<mapsto> 2, (1, 2) \<mapsto> 2]\<rparr> =
     Inr \<lparr>open_set = [(8 / 3 + sqrt 4610, (1, 3)), (8 / 3 + sqrt 4608, (2, 2)),
                      (2 + sqrt 4705, (2, 1)), (4 / 3 + sqrt 4804, (0, 2)),
                      (2 / 3 + sqrt 4901, (1, 0))],
          came_from = [(1, 0) \<mapsto> (0, 0), (0, 1) \<mapsto> (0, 0), (1, 1) \<mapsto> (0, 1), (0, 2) \<mapsto> (0, 1),
                       (2, 1) \<mapsto> (1, 1), (1, 2) \<mapsto> (1, 1), (2, 2) \<mapsto> (1, 2), (1, 3) \<mapsto> (1, 2)],
          cost_so_far = [(0, 0) \<mapsto> 0, (1, 0) \<mapsto> 2 / 3, (0, 1) \<mapsto> 2 / 3, (1, 1) \<mapsto> 4 / 3,
                         (0, 2) \<mapsto> 4 / 3, (2, 1) \<mapsto> 2, (1, 2) \<mapsto> 2, (2, 2) \<mapsto> 8 / 3,
                         (1, 3) \<mapsto> 8 / 3]\<rparr>"
  using sqrt_4901_lower sqrt_4705_upper sqrt_4804_lower
  by (simp add: eval_simps min_def)

lemma wide_pass_5:
  "iteration (uniform_grid 100 100 2 0) (2, 2)
     \<lparr>open_set = [(8 / 3 + sqrt 4610, (1, 3)), (8 / 3 + sqrt 4608, (2, 2)),
                      (2 + sqrt 4705, (2, 1)), (4 / 3 + sqrt 4804, (0, 2)),
                      (2 / 3 + sqrt 4901, (1, 0))],
          came_from = [(1, 0) \<mapsto> (0, 0), (0, 1) \<mapsto> (0, 0), (1, 1) \<mapsto> (0, 1), (0, 2) \<mapsto> (0, 1),
                       (2, 1) \<mapsto> (1, 1), (1, 2) \<mapsto> (1, 1), (2, 2) \<mapsto> (1, 2), (1, 3) \<mapsto> (1, 2)],
          cost_so_far = [(0, 0) \<mapsto> 0, (1, 0) \<mapsto> 2 / 3, (0, 1) \<mapsto> 2 / 3, (1, 1) \<mapsto> 4 / 3,
                         (0, 2) \<mapsto> 4 / 3, (2, 1) \<mapsto> 2, (1, 2) \<mapsto> 2, (2, 2) \<mapsto> 8 / 3,
                         (1, 3) \<mapsto> 8 / 3]\<rparr> =
     Inl (Inr ([(1, 0) \<mapsto> (0, 0), (0, 1) \<mapsto> (0, 0), (1, 1) \<mapsto> (0, 1), (0, 2) \<mapsto> (0, 1),
                (2, 1) \<mapsto> (1, 1), (1, 2) \<mapsto> (1, 1), (2, 2) \<mapsto> (1, 2), (1, 3) \<mapsto> (1, 2)],
               [(0, 0) \<mapsto> 0, (1, 0) \<mapsto> 2 / 3, (0, 1) \<mapsto> 2 / 3, (1, 1) \<mapsto> 4 / 3,
                (0, 2) \<mapsto> 4 / 3, (2, 1) \<mapsto> 2, (1, 2) \<mapsto> 2, (2, 2) \<mapsto> 8 / 3,
                (1, 3) \<mapsto> 8 / 3]))"
  using sqrt_4901_lower sqrt_4705_lower sqrt_4804_lower sqrt_4608_upper
  by (simp add: eval_simps min_def)

text \<open>
  The same example on the grid size the constants are written for: on the flat
  all-asphalt \<open>100 \<times> 100\<close> grid the search from \<open>(0, 0)\<close> to \<open>(2, 2)\<close> leaves the loop in
  its fifth pass, records the cost \<open>4 \<times> (1 / 1.5)\<close> for the target, and the reconstructed
  path is a shortest 4-directional route of four steps.
\<close>

theorem wide_grid_example:
  "\<exists>cf cs. find_fastest_path (uniform_grid 100 100 2 0) (0, 0) (2, 2) = Some (Inr (cf, cs)) \<and>
     cs (2, 2) = Some (4 * (1 / (15 / 10))) \<and>
     reconstruct_path cf (0, 0) (2, 2) = Some (Inr [(0, 0), (0, 1), (1, 1), (1, 2), (2, 2)])"
proof -
  let ?cf = "[(1, 0) \<mapsto> (0, 0), (0, 1) \<mapsto> (0, 0), (1, 1) \<mapsto> (0, 1), (0, 2) \<mapsto> (0, 1),
              (2, 1) \<mapsto> (1, 1), (1, 2) \<mapsto> (1, 1), (2, 2) \<mapsto> (1, 2), (1, 3) \<mapsto> (1, 2)] ::
              coord \<rightharpoonup> coord"
  let ?cs = "[(0, 0) \<mapsto> 0, (1, 0) \<mapsto> 2 / 3, (0, 1) \<mapsto> 2 / 3, (1, 1) \<mapsto> 4 / 3,
              (0, 2) \<mapsto> 4 / 3, (2, 1) \<mapsto> 2, (1, 2) \<mapsto> 2, (2, 2) \<mapsto> 8 / 3,
              (1, 3) \<mapsto> 8 / 3] :: coord \<rightharpoonup> real"
  have ne: "open_set (initial_state (0, 0)) \<noteq> []"
    by (simp add: initial_state_def heappush_def)
  have "find_fastest_path (uniform_grid 100 100 2 0) (0, 0) (2, 2) = Some (Inr (?cf, ?cs))"
    unfolding find_fastest_path_def
    apply (subst search_loop.simps, simp add: wide_pass_1 ne)
    apply (subst search_loop.simps, simp add: wide_pass_2)
    apply (subst search_loop.simps, simp add: wide_pass_3)
    apply (subst search_loop.simps, simp add: wide_pass_4)
    apply (subst search_loop.simps, simp add: wide_pass_5)
    done
  moreover have "?cs (2, 2) = Some (4 * (1 / (15 / 10)))" by simp
  moreover have "reconstruct_path ?cf (0, 0) (2, 2) =
      Some (Inr [(0, 0), (0, 1), (1, 1), (1, 2), (2, 2)])"
    by (simp add: reconstruct_path_def reconstruct_loop.simps dict_get_def)
  ultimately show ?thesis by blast
qed

subsection \<open>Termination of the search\<close>

lemma calculate_cost_nonneg:
  assumes "calculate_cost a b g = Inr c"
  shows "0 \<le> c"
proof -
  from assms obtain tc where tc: "terrain_cost b = Inr tc"
    and c: "c = distance_cost a b * tc * slope_cost a b"
    by (auto simp add: calculate_cost_def split: sum.splits)
  from tc have "0 \<le> tc"
    by (auto simp add: terrain_cost_cases split: if_splits)
  moreover have "0 \<le> slope_cost a b"
    using slope_cost_ge_1 [of a b] by linarith
  ultimately show ?thesis
    unfolding c using distance_cost_nonneg [of a b] by simp
qed

lemma step_cost_nonneg: "0 \<le> step_cost g a b"
  by (auto simp add: step_cost_def calculate_cost_nonneg split: sum.splits)

lemma route_cost_nonneg: "0 \<le> route_cost g p"
  by (induction g p rule: route_cost.induct) (simp_all add: step_cost_nonneg)

lemma route_cost_tail: "route_cost g r \<le> route_cost g (a # r)"
  by (cases r) (simp_all add: step_cost_nonneg)

lemma covered_mem:
  "covered g cs p \<Longrightarrow> a \<in> set p \<Longrightarrow> \<exists>u. cs a = Some u \<and> u \<le> route_cost g p"
proof (induction p)
  case Nil
  then show ?case by simp
next
  case (Cons b r)
  show ?case
  proof (cases "a = b")
    case True
    with Cons.prems(1) show ?thesis by (auto split: option.splits)
  next
    case False
    with Cons.prems have "covered g cs r" and "a \<in> set r" by simp_all
    then obtain u where "cs a = Some u" and "u \<le> route_cost g r"
      using Cons.IH by blast
    with route_cost_tail [of g r b] show ?thesis by auto
  qed
qed

lemma covered_mono:
  assumes le: "\<And>a u. cs a = Some u \<Longrightarrow> \<exists>u'. cs' a = Some u' \<and> u' \<le> u"
  shows "covered g cs p \<Longrightarrow> covered g cs' p"
proof (induction p)
  case Nil
  then show ?case by simp
next
  case (Cons b r)
  from Cons.prems obtain u where u: "cs b = Some u" "u \<le> route_cost g (b # r)"
    and r: "covered g cs r"
    by (auto split: option.splits)
  from le [OF u(1)] obtain u' where "cs' b = Some u'" "u' \<le> u" by blast
  with u(2) Cons.IH [OF r] show ?case by simp
qed

lemma finite_cells: "finite (cells start)"
proof -
  have "{c. in_range c} \<subseteq> {0..<GRID_SIZE} \<times> {0..<GRID_SIZE}"
    by (auto simp add: in_range_def)
  then have "finite {c. in_range c}"
    by (rule finite_subset) simp
  then show ?thesis by (simp add: cells_def)
qed

lemma finite_costs: "finite (costs g start)"
  unfolding costs_def
  by (rule finite_imageI) (rule finite_subset_distinct [OF finite_cells])

lemma backed_cost_in_costs:
  assumes "backed g start cs" and "cs n = Some v"
  shows "v \<in> costs g start" and "n \<in> cells start"
proof -
  from assms obtain p where p: "distinct (n # p)" "set (n # p) \<subseteq> cells start"
    "route_cost g (n # p) = v"
    unfolding backed_def by blast
  then show "v \<in> costs g start"
    unfolding costs_def by blast
  from p(2) show "n \<in> cells start" by simp
qed

lemma backed_initial: "backed g start [start \<mapsto> 0]"
proof -
  have "distinct (start # []) \<and> set (start # []) \<subseteq> cells start \<and>
      route_cost g (start # []) = 0 \<and> covered g [start \<mapsto> 0] []"
    by (simp add: cells_def)
  then show ?thesis
    unfolding backed_def by (metis fun_upd_apply option.distinct(1) option.inject)
qed

text \<open>A write as the inner loop does it keeps the invariant and lowers the potential.\<close>

lemma backed_update:
  assumes b: "backed g start cs"
    and cur: "cs cur = Some c"
    and n: "in_range n"
    and new: "new = c + step_cost g cur n"
    and better: "case cs n of None \<Rightarrow> True | Some old \<Rightarrow> new < old"
  shows "backed g start (cs(n \<mapsto> new))" and "new \<in> costs g start"
proof -
  from b cur obtain p where p: "distinct (cur # p)" "set (cur # p) \<subseteq> cells start"
    "route_cost g (cur # p) = c" "covered g cs p"
    unfolding backed_def by blast
  have cov: "covered g cs (cur # p)"
    using p(3,4) cur by simp
  have fresh: "n \<notin> set (cur # p)"
  proof
    assume "n \<in> set (cur # p)"
    from covered_mem [OF cov this] obtain u where u: "cs n = Some u" "u \<le> route_cost g (cur # p)"
      by blast
    with p(3) have "u \<le> c" by simp
    with step_cost_nonneg [of g cur n] new have "u \<le> new" by linarith
    with better u(1) show False by simp
  qed
  have le: "\<exists>u'. (cs(n \<mapsto> new)) a = Some u' \<and> u' \<le> u" if "cs a = Some u" for a u
    using that better by (cases "a = n") auto
  have route: "route_cost g (n # cur # p) = new"
    using p(3) new by simp
  have np: "distinct (n # cur # p) \<and> set (n # cur # p) \<subseteq> cells start"
    using fresh p(1,2) n by (auto simp add: cells_def)
  have cov': "covered g (cs(n \<mapsto> new)) (cur # p)"
    by (rule covered_mono [where cs = cs, OF le cov])
  show "backed g start (cs(n \<mapsto> new))"
    unfolding backed_def
  proof (intro allI impI)
    fix m v
    assume m: "(cs(n \<mapsto> new)) m = Some v"
    show "\<exists>q. distinct (m # q) \<and> set (m # q) \<subseteq> cells start \<and> route_cost g (m # q) = v \<and>
        covered g (cs(n \<mapsto> new)) q"
    proof (cases "m = n")
      case True
      with m have "v = new" by simp
      with True np route cov' show ?thesis by blast
    next
      case False
      with m have "cs m = Some v" by simp
      with b obtain q where q: "distinct (m # q)" "set (m # q) \<subseteq> cells start"
        "route_cost g (m # q) = v" "covered g cs q"
        unfolding backed_def by blast
      have "covered g (cs(n \<mapsto> new)) q"
        by (rule covered_mono [where cs = cs, OF le q(4)])
      with q(1,2,3) show ?thesis by blast
    qed
  qed
  from np route show "new \<in> costs g start"
    unfolding costs_def by (intro image_eqI [where x = "n # cur # p"]) auto
qed

lemma potential_update:
  assumes b: "backed g start cs"
    and n: "n \<in> cells start"
    and new: "new \<in> costs g start"
    and better: "case cs n of None \<Rightarrow> True | Some old \<Rightarrow> new < old"
  shows "potential g start (cs(n \<mapsto> new)) < potential g start cs"
proof -
  have fin: "finite (costs g start)" by (rule finite_costs)
  have bound: "card {x \<in> costs g start. x < new} \<le> card (costs g start)"
    by (rule card_mono [OF fin]) blast
  have rank_n: "rank g start (cs(n \<mapsto> new)) n < rank g start cs n"
  proof (cases "cs n")
    case None
    with bound show ?thesis by (simp add: rank_def)
  next
    case (Some old)
    with better have lt: "new < old" by simp
    have "{x \<in> costs g start. x < new} \<subset> {x \<in> costs g start. x < old}"
      using lt new by auto
    moreover have "finite {x \<in> costs g start. x < old}"
      using fin by simp
    ultimately have "card {x \<in> costs g start. x < new} < card {x \<in> costs g start. x < old}"
      by (rule psubset_card_mono [rotated])
    with Some show ?thesis by (simp add: rank_def)
  qed
  have others: "rank g start (cs(n \<mapsto> new)) m = rank g start cs m" if "m \<noteq> n" for m
    using that by (simp add: rank_def)
  have "potential g start (cs(n \<mapsto> new)) =
      rank g start (cs(n \<mapsto> new)) n + (\<Sum>m \<in> cells start - {n}. rank g start (cs(n \<mapsto> new)) m)"
    unfolding potential_def by (rule sum.remove [OF finite_cells n])
  also have "(\<Sum>m \<in> cells start - {n}. rank g start (cs(n \<mapsto> new)) m) =
      (\<Sum>m \<in> cells start - {n}. rank g start cs m)"
    by (rule sum.cong) (simp_all add: others)
  also have "rank g start (cs(n \<mapsto> new)) n + (\<Sum>m \<in> cells start - {n}. rank g start cs m) <
      rank g start cs n + (\<Sum>m \<in> cells start - {n}. rank g start cs m)"
    using rank_n by simp
  also have "rank g start cs n + (\<Sum>m \<in> cells start - {n}. rank g start cs m) =
      potential g start cs"
    unfolding potential_def by (rule sum.remove [OF finite_cells n, symmetric])
  finally show ?thesis .
qed

lemma visit_cases:
  assumes "visit g cur st d = Inr st'"
  shows "st' = st \<or>
    (\<exists>n c. n = (fst cur + fst d, snd cur + snd d) \<and> in_range n \<and>
       cost_so_far st cur = Some c \<and>
       (case cost_so_far st n of None \<Rightarrow> True | Some old \<Rightarrow> c + step_cost g cur n < old) \<and>
       st' = st\<lparr>cost_so_far := (cost_so_far st)(n \<mapsto> c + step_cost g cur n),
             open_set := heappush (open_set st)
               (c + step_cost g cur n +
                  sqrt (real_of_int ((fst TARGET - fst n)\<^sup>2 + (snd TARGET - snd n)\<^sup>2)), n),
             came_from := (came_from st)(n \<mapsto> cur)\<rparr>)"
  using assms
  by (auto simp add: visit_def Let_def dict_get_def step_cost_def in_range_def
      split: prod.splits sum.splits if_splits option.splits)

lemma visit_progress:
  assumes b: "backed g start (cost_so_far st)" and v: "visit g cur st d = Inr st'"
  shows "backed g start (cost_so_far st') \<and>
    (st' = st \<or> potential g start (cost_so_far st') < potential g start (cost_so_far st))"
proof (cases "st' = st")
  case True
  with b show ?thesis by simp
next
  case False
  with visit_cases [OF v] obtain n c where
    n: "in_range n" and c: "cost_so_far st cur = Some c" and
    better: "case cost_so_far st n of None \<Rightarrow> True | Some old \<Rightarrow> c + step_cost g cur n < old" and
    cs': "cost_so_far st' = (cost_so_far st)(n \<mapsto> c + step_cost g cur n)"
    by auto
  let ?new = "c + step_cost g cur n"
  from backed_update [OF b c n refl better]
  have b': "backed g start ((cost_so_far st)(n \<mapsto> ?new))" and new: "?new \<in> costs g start"
    by blast+
  have "n \<in> cells start"
    using n by (simp add: cells_def)
  from potential_update [OF b this new better] b' cs' show ?thesis by simp
qed

lemma visit_all_progress:
  "backed g start (cost_so_far st) \<Longrightarrow> visit_all g cur st ds = Inr st' \<Longrightarrow>
   backed g start (cost_so_far st') \<and>
   (st' = st \<or> potential g start (cost_so_far st') < potential g start (cost_so_far st))"
proof (induction ds arbitrary: st)
  case Nil
  then show ?case by simp
next
  case (Cons d ds)
  from Cons.prems(2) obtain st1 where v1: "visit g cur st d = Inr st1"
    and rest: "visit_all g cur st1 ds = Inr st'"
    by (auto split: sum.splits)
  from visit_progress [OF Cons.prems(1) v1]
  have b1: "backed g start (cost_so_far st1)"
    and p1: "st1 = st \<or> potential g start (cost_so_far st1) < potential g start (cost_so_far st)"
    by blast+
  from Cons.IH [OF b1 rest]
  have "backed g start (cost_so_far st')"
    and "st' = st1 \<or> potential g start (cost_so_far st') < potential g start (cost_so_far st1)"
    by blast+
  with p1 show ?case by auto
qed

lemma fold_min_in: "fold min es (e :: entry) \<in> set (e # es)"
proof (induction es arbitrary: e)
  case Nil
  then show ?case by simp
next
  case (Cons x xs)
  have "fold min (x # xs) e = fold min xs (min x e)" by simp
  moreover have "fold min xs (min x e) \<in> set (min x e # xs)" by (rule Cons.IH)
  moreover have "min x e = x \<or> min x e = e" by (simp add: min_def)
  ultimately show ?case by auto
qed

lemma heappop_nonempty:
  assumes "h \<noteq> []"
  obtains m where "heappop h = Inr (m, remove1 m h)" and "m \<in> set h"
proof -
  from assms obtain e es where h: "h = e # es" by (cases h) auto
  have "heappop h = Inr (fold min es e, remove1 (fold min es e) h)"
    by (simp add: heappop_def h Let_def)
  moreover have "fold min es e \<in> set h"
    unfolding h by (rule fold_min_in)
  ultimately show thesis by (rule that)
qed

lemma wf_loop_order: "wf (loop_order g start)"
  unfolding loop_order_def by (intro wf_inv_image wf_lex_prod wf_less_than)

lemma iteration_progress:
  assumes ne: "open_set st \<noteq> []"
    and b: "backed g start (cost_so_far st)"
    and it: "iteration g t st = Inr st'"
  shows "backed g start (cost_so_far st') \<and> (st', st) \<in> loop_order g start"
proof -
  from ne obtain m where pop: "heappop (open_set st) = Inr (m, remove1 m (open_set st))"
    and m: "m \<in> set (open_set st)"
    by (rule heappop_nonempty)
  let ?st1 = "st\<lparr>open_set := remove1 m (open_set st)\<rparr>"
  from it pop have va: "visit_all g (snd m) ?st1 offsets = Inr st'"
    by (auto simp add: iteration_def Let_def split: sum.splits if_splits)
  have b1: "backed g start (cost_so_far ?st1)"
    using b by simp
  from visit_all_progress [OF b1 va]
  have b': "backed g start (cost_so_far st')"
    and p: "st' = ?st1 \<or> potential g start (cost_so_far st') < potential g start (cost_so_far ?st1)"
    by blast+
  have len: "length (remove1 m (open_set st)) < length (open_set st)"
    using m ne by (simp add: length_remove1)
  from p have "(st', st) \<in> loop_order g start"
  proof
    assume "st' = ?st1"
    with len show ?thesis by (simp add: loop_order_def)
  next
    assume "potential g start (cost_so_far st') < potential g start (cost_so_far ?st1)"
    then show ?thesis by (simp add: loop_order_def)
  qed
  with b' show ?thesis by blast
qed

lemma search_loop_returns:
  "backed g start (cost_so_far st) \<Longrightarrow> \<exists>r. search_loop g t st = Some r"
proof (induction st rule: wf_induct_rule [OF wf_loop_order [of g start]])
  case (1 st)
  show ?case
  proof (cases "open_set st = []")
    case True
    then show ?thesis by (subst search_loop.simps) simp
  next
    case False
    show ?thesis
    proof (cases "iteration g t st")
      case (Inl r)
      with False show ?thesis by (subst search_loop.simps) simp
    next
      case (Inr st')
      from iteration_progress [OF False "1.prems" Inr]
      have "backed g start (cost_so_far st')" and "(st', st) \<in> loop_order g start"
        by blast+
      then obtain r where "search_loop g t st' = Some r"
        using "1.IH" by blast
      with False Inr show ?thesis by (subst search_loop.simps) simp
    qed
  qed
qed

lemma run_ends:
  "backed g start (cost_so_far st) \<Longrightarrow> \<exists>n. run g t n st = None"
proof (induction st rule: wf_induct_rule [OF wf_loop_order [of g start]])
  case (1 st)
  show ?case
  proof (cases "open_set st = []")
    case True
    then have "run g t (Suc 0) st = None" by simp
    then show ?thesis by blast
  next
    case False
    show ?thesis
    proof (cases "iteration g t st")
      case (Inl r)
      with False have "run g t (Suc 0) st = None" by simp
      then show ?thesis by blast
    next
      case (Inr st')
      from iteration_progress [OF False "1.prems" Inr]
      have "backed g start (cost_so_far st')" and "(st', st) \<in> loop_order g start"
        by blast+
      then obtain n where "run g t n st' = None"
        using "1.IH" by blast
      with False Inr have "run g t (Suc n) st = None" by simp
      then show ?thesis by blast
    qed
  qed
qed

text \<open>
  Claim C5. For every grid, start and target the call of \<open>find_fastest_path\<close> returns (a
  pair of dictionaries, or the exception of a failed read), and the \<open>while\<close> loop is left
  after finitely many passes: each pass takes one entry from the heap, and each entry it
  adds lowers the recorded cost of a key to the cost of another route without repeated
  coordinates, of which a finite grid has finitely many.
\<close>

theorem find_fastest_path_terminates:
  "(\<exists>r. find_fastest_path grid start target = Some r) \<and>
   (\<exists>n. run grid target n (initial_state start) = None)"
proof
  have b: "backed grid start (cost_so_far (initial_state start))"
    by (simp add: initial_state_def backed_initial)
  from search_loop_returns [OF b] show "\<exists>r. find_fastest_path grid start target = Some r"
    by (simp add: find_fastest_path_def)
  from run_ends [OF b] show "\<exists>n. run grid target n (initial_state start) = None" .
qed

subsection \<open>The cost map is monotone\<close>

lemma visit_write:
  assumes "visit grid current st d = Inr st1"
  shows "st1 = st \<or>
    (\<exists>n new priority.
       st1 = st\<lparr>cost_so_far := (cost_so_far st)(n \<mapsto> new),
                 open_set := heappush (open_set st) (priority, n),
                 came_from := (came_from st)(n \<mapsto> current)\<rparr> \<and>
       (\<forall>old. cost_so_far st n = Some old \<longrightarrow> new < old))"
proof -
  from visit_cases [OF assms] show ?thesis
  proof
    assume "st1 = st"
    then show ?thesis by blast
  next
    assume "\<exists>n c. n = (fst current + fst d, snd current + snd d) \<and> in_range n \<and>
       cost_so_far st current = Some c \<and>
       (case cost_so_far st n of None \<Rightarrow> True | Some old \<Rightarrow> c + step_cost grid current n < old) \<and>
       st1 = st\<lparr>cost_so_far := (cost_so_far st)(n \<mapsto> c + step_cost grid current n),
             open_set := heappush (open_set st)
               (c + step_cost grid current n +
                  sqrt (real_of_int ((fst TARGET - fst n)\<^sup>2 + (snd TARGET - snd n)\<^sup>2)), n),
             came_from := (came_from st)(n \<mapsto> current)\<rparr>"
    then obtain n c where
      better: "case cost_so_far st n of None \<Rightarrow> True
        | Some old \<Rightarrow> c + step_cost grid current n < old" and
      st1: "st1 = st\<lparr>cost_so_far := (cost_so_far st)(n \<mapsto> c + step_cost grid current n),
             open_set := heappush (open_set st)
               (c + step_cost grid current n +
                  sqrt (real_of_int ((fst TARGET - fst n)\<^sup>2 + (snd TARGET - snd n)\<^sup>2)), n),
             came_from := (came_from st)(n \<mapsto> current)\<rparr>"
      by blast
    from better have "\<forall>old. cost_so_far st n = Some old \<longrightarrow> c + step_cost grid current n < old"
      by (auto split: option.splits)
    with st1 show ?thesis by blast
  qed
qed

lemma visit_unwritten:
  assumes v: "visit grid current st d = Inr st1"
    and k: "cost_so_far st k = Some v" "cost_so_far st1 k = Some v"
  shows "pushes_of k (open_set st1) = pushes_of k (open_set st)"
proof -
  from visit_write [OF v] show ?thesis
  proof
    assume "st1 = st"
    then show ?thesis by simp
  next
    assume "\<exists>n new priority.
       st1 = st\<lparr>cost_so_far := (cost_so_far st)(n \<mapsto> new),
                 open_set := heappush (open_set st) (priority, n),
                 came_from := (came_from st)(n \<mapsto> current)\<rparr> \<and>
       (\<forall>old. cost_so_far st n = Some old \<longrightarrow> new < old)"
    then obtain n new priority where
      st1: "st1 = st\<lparr>cost_so_far := (cost_so_far st)(n \<mapsto> new),
                 open_set := heappush (open_set st) (priority, n),
                 came_from := (came_from st)(n \<mapsto> current)\<rparr>" and
      less: "\<forall>old. cost_so_far st n = Some old \<longrightarrow> new < old"
      by blast
    have "n \<noteq> k"
    proof
      assume "n = k"
      with st1 k(2) have "new = v" by simp
      moreover from less k(1) \<open>n = k\<close> have "new < v" by simp
      ultimately show False by simp
    qed
    with st1 show ?thesis by (simp add: pushes_of_def heappush_def)
  qed
qed

lemma visit_all_unwritten:
  "visit_all grid current st ds = Inr st' \<Longrightarrow> cost_so_far st k = Some v \<Longrightarrow>
   cost_so_far st' k = Some v \<Longrightarrow> pushes_of k (open_set st') = pushes_of k (open_set st)"
proof (induction ds arbitrary: st)
  case Nil
  then show ?case by simp
next
  case (Cons d ds)
  from Cons.prems(1) obtain st1 where v1: "visit grid current st d = Inr st1"
    and rest: "visit_all grid current st1 ds = Inr st'"
    by (auto split: sum.splits)
  from visit_cost_mono [OF v1 Cons.prems(2)] obtain v1' where
    c1: "cost_so_far st1 k = Some v1'" and le1: "v1' \<le> v" by blast
  from visit_all_cost_mono [OF rest c1] Cons.prems(3) have "v \<le> v1'" by simp
  with le1 c1 have c1': "cost_so_far st1 k = Some v" by simp
  from Cons.IH [OF rest c1' Cons.prems(3)] visit_unwritten [OF v1 Cons.prems(2) c1']
  show ?case by simp
qed

lemma pushes_of_remove1: "pushes_of k (remove1 m h) \<le> pushes_of k h"
  unfolding pushes_of_def
  by (induction h) auto

lemma iteration_unwritten:
  assumes it: "iteration grid target st = Inr st'"
    and k: "cost_so_far st k = Some v" "cost_so_far st' k = Some v"
  shows "pushes_of k (open_set st') \<le> pushes_of k (open_set st)"
proof -
  have ne: "open_set st \<noteq> []"
    using it by (auto simp add: iteration_def heappop_def)
  then obtain m where pop: "heappop (open_set st) = Inr (m, remove1 m (open_set st))"
    by (rule heappop_nonempty)
  let ?st1 = "st\<lparr>open_set := remove1 m (open_set st)\<rparr>"
  from it pop have va: "visit_all grid (snd m) ?st1 offsets = Inr st'"
    by (auto simp add: iteration_def Let_def split: sum.splits if_splits)
  have "cost_so_far ?st1 k = Some v" using k(1) by simp
  from visit_all_unwritten [OF va this k(2)]
  have "pushes_of k (open_set st') = pushes_of k (remove1 m (open_set st))" by simp
  with pushes_of_remove1 [of k m "open_set st"] show ?thesis by simp
qed

lemma run_unwritten:
  "run grid target n st = Some st' \<Longrightarrow> cost_so_far st k = Some v \<Longrightarrow>
   cost_so_far st' k = Some v \<Longrightarrow> pushes_of k (open_set st') \<le> pushes_of k (open_set st)"
proof (induction n arbitrary: st)
  case 0
  then show ?case by simp
next
  case (Suc n)
  from Suc.prems(1) obtain st1 where it: "iteration grid target st = Inr st1"
    and rest: "run grid target n st1 = Some st'"
    by (auto split: if_splits sum.splits)
  from iteration_cost_mono [OF it Suc.prems(2)] obtain v1 where
    c1: "cost_so_far st1 k = Some v1" and le1: "v1 \<le> v" by blast
  from run_cost_mono [OF rest c1] Suc.prems(3) have "v \<le> v1" by simp
  with le1 c1 have c1': "cost_so_far st1 k = Some v" by simp
  from Suc.IH [OF rest c1' Suc.prems(3)] iteration_unwritten [OF it Suc.prems(2) c1']
  show ?case by simp
qed

text \<open>
  Claim C6. A write to \<open>cost_so_far\<close> happens in the body of the inner loop only: one
  pass of that body leaves the state as it is, or writes one key, pushes one heap entry
  for that key and records its predecessor, and the value written to a key that had a
  value is strictly smaller than that value. So from any state of the loop to any later
  state of the same run, and to the dictionary that \<open>find_fastest_path\<close> returns, the
  value of a key never increases; and a key whose value is the same at both states was
  not written in between: no heap entry was pushed for it.
\<close>

theorem cost_so_far_never_increases:
  "(visit grid current st d = Inr st1 \<longrightarrow>
      st1 = st \<or>
      (\<exists>n new priority.
         st1 = st\<lparr>cost_so_far := (cost_so_far st)(n \<mapsto> new),
                   open_set := heappush (open_set st) (priority, n),
                   came_from := (came_from st)(n \<mapsto> current)\<rparr> \<and>
         (\<forall>old. cost_so_far st n = Some old \<longrightarrow> new < old))) \<and>
   (run grid target n st = Some st2 \<and> cost_so_far st k = Some v \<longrightarrow>
      (\<exists>v'. cost_so_far st2 k = Some v' \<and> v' \<le> v \<and>
            (v' = v \<longrightarrow> pushes_of k (open_set st2) \<le> pushes_of k (open_set st)))) \<and>
   (find_fastest_path grid start target = Some (Inr (cf, cs)) \<and>
    run grid target i (initial_state start) = Some si \<and> cost_so_far si k = Some v \<longrightarrow>
      (\<exists>v'. cs k = Some v' \<and> v' \<le> v))"
proof (rule conjI; (rule conjI)?; rule impI)
  assume "visit grid current st d = Inr st1"
  then show "st1 = st \<or>
      (\<exists>n new priority.
         st1 = st\<lparr>cost_so_far := (cost_so_far st)(n \<mapsto> new),
                   open_set := heappush (open_set st) (priority, n),
                   came_from := (came_from st)(n \<mapsto> current)\<rparr> \<and>
         (\<forall>old. cost_so_far st n = Some old \<longrightarrow> new < old))"
    by (rule visit_write)
next
  assume a: "run grid target n st = Some st2 \<and> cost_so_far st k = Some v"
  with run_cost_mono obtain v' where v': "cost_so_far st2 k = Some v'" "v' \<le> v"
    by blast
  have "pushes_of k (open_set st2) \<le> pushes_of k (open_set st)" if "v' = v"
    using run_unwritten [of grid target n st st2 k v] a v'(1) that by simp
  with v' show "\<exists>v'. cost_so_far st2 k = Some v' \<and> v' \<le> v \<and>
      (v' = v \<longrightarrow> pushes_of k (open_set st2) \<le> pushes_of k (open_set st))"
    by blast
next
  assume "find_fastest_path grid start target = Some (Inr (cf, cs)) \<and>
    run grid target i (initial_state start) = Some si \<and> cost_so_far si k = Some v"
  then show "\<exists>v'. cs k = Some v' \<and> v' \<le> v"
    unfolding find_fastest_path_def using result_cost_mono by blast
qed

theorem cost_so_far_never_increases_witness:
  "visit (uniform_grid 1 2 2 0) (0, 0)
     \<lparr>open_set = [], came_from = Map.empty, cost_so_far = [(0, 0) \<mapsto> 0, (0, 1) \<mapsto> 5]\<rparr> (0, 1) =
   Inr \<lparr>open_set = [(2 / 3 + sqrt 4901, (0, 1))], came_from = [(0, 1) \<mapsto> (0, 0)],
        cost_so_far = [(0, 0) \<mapsto> 0, (0, 1) \<mapsto> 2 / 3]\<rparr> \<and>
   (\<exists>n new. [(0 :: int, 0 :: int) \<mapsto> 0, (0, 1) \<mapsto> (2 / 3 :: real)] =
        [(0, 0) \<mapsto> 0, (0, 1) \<mapsto> 5](n \<mapsto> new) \<and>
      (\<forall>old. [(0 :: int, 0 :: int) \<mapsto> 0, (0, 1) \<mapsto> (5 :: real)] n = Some old \<longrightarrow> new < old))"
proof -
  let ?st = "\<lparr>open_set = [], came_from = Map.empty, cost_so_far = [(0, 0) \<mapsto> 0, (0, 1) \<mapsto> 5]\<rparr>"
  let ?st1 = "\<lparr>open_set = [(2 / 3 + sqrt 4901, (0, 1))], came_from = [(0, 1) \<mapsto> (0, 0)],
        cost_so_far = [(0, 0) \<mapsto> 0, (0, 1) \<mapsto> 2 / 3]\<rparr>"
  have v: "visit (uniform_grid 1 2 2 0) (0, 0) ?st (0, 1) = Inr ?st1"
    by (simp add: visit_def GRID_SIZE_def TARGET_def grid_at_uniform calculate_cost_asphalt_flat
        dict_get_def heappush_def Let_def)
  have ne: "?st1 \<noteq> ?st" by simp
  from cost_so_far_never_increases [of "uniform_grid 1 2 2 0" "(0, 0)" ?st "(0, 1)" ?st1,
      THEN conjunct1] v ne
  obtain n new priority where
    st1: "?st1 = ?st\<lparr>cost_so_far := (cost_so_far ?st)(n \<mapsto> new),
                   open_set := heappush (open_set ?st) (priority, n),
                   came_from := (came_from ?st)(n \<mapsto> (0, 0))\<rparr>" and
    less: "\<forall>old. cost_so_far ?st n = Some old \<longrightarrow> new < old"
    by blast
  from arg_cong [OF st1, of cost_so_far]
  have eq: "[(0 :: int, 0 :: int) \<mapsto> 0, (0, 1) \<mapsto> (2 / 3 :: real)] =
      [(0, 0) \<mapsto> 0, (0, 1) \<mapsto> 5](n \<mapsto> new)"
    by simp
  from less
  have lt: "\<forall>old. [(0 :: int, 0 :: int) \<mapsto> 0, (0, 1) \<mapsto> (5 :: real)] n = Some old \<longrightarrow> new < old"
    by simp
  have ex: "\<exists>n new. [(0 :: int, 0 :: int) \<mapsto> 0, (0, 1) \<mapsto> (2 / 3 :: real)] =
        [(0, 0) \<mapsto> 0, (0, 1) \<mapsto> 5](n \<mapsto> new) \<and>
      (\<forall>old. [(0 :: int, 0 :: int) \<mapsto> 0, (0, 1) \<mapsto> (5 :: real)] n = Some old \<longrightarrow> new < old)"
    using eq lt by blast
  from v ex show ?thesis by (rule conjI)
qed

subsection \<open>Reads within bounds, and coordinates out of bounds\<close>









lemma visit_keys:
  assumes v: "visit g cur st d = Inr st'" and k: "keys_in_range start st"
  shows "keys_in_range start st'"
proof (cases "st' = st")
  case True
  with k show ?thesis by simp
next
  case False
  with visit_cases [OF v] obtain n c where n: "in_range n"
    and cs': "cost_so_far st' = (cost_so_far st)(n \<mapsto> c + step_cost g cur n)"
    and cf': "came_from st' = (came_from st)(n \<mapsto> cur)"
    by auto
  show ?thesis
    unfolding keys_in_range_def
  proof (intro conjI allI impI)
    fix k' v'
    assume "cost_so_far st' k' = Some v'"
    then have "k' = n \<or> cost_so_far st k' = Some v'"
      unfolding cs' by (simp split: if_splits)
    with n k show "k' = start \<or> in_range k'"
      unfolding keys_in_range_def by blast
  next
    fix k' p
    assume "came_from st' k' = Some p"
    then have "k' = n \<or> came_from st k' = Some p"
      unfolding cf' by (simp split: if_splits)
    with n k show "in_range k'"
      unfolding keys_in_range_def by blast
  qed
qed

lemma visit_all_keys:
  "visit_all g cur st ds = Inr st' \<Longrightarrow> keys_in_range start st \<Longrightarrow> keys_in_range start st'"
proof (induction ds arbitrary: st)
  case Nil
  then show ?case by simp
next
  case (Cons d ds)
  from Cons.prems(1) obtain st1 where v1: "visit g cur st d = Inr st1"
    and rest: "visit_all g cur st1 ds = Inr st'"
    by (auto split: sum.splits)
  from Cons.IH [OF rest visit_keys [OF v1 Cons.prems(2)]] show ?case .
qed

lemma iteration_keys:
  assumes "iteration g t st = Inr st'" and "keys_in_range start st"
  shows "keys_in_range start st'"
proof -
  from assms(1) obtain least rest where
    va: "visit_all g (snd least) (st\<lparr>open_set := rest\<rparr>) offsets = Inr st'"
    by (auto simp add: iteration_def Let_def split: sum.splits prod.splits if_splits)
  have "keys_in_range start (st\<lparr>open_set := rest\<rparr>)"
    using assms(2) by (simp add: keys_in_range_def)
  from visit_all_keys [OF va this] show ?thesis .
qed

lemma run_keys:
  "run g t n st = Some st' \<Longrightarrow> keys_in_range start st \<Longrightarrow> keys_in_range start st'"
proof (induction n arbitrary: st)
  case 0
  then show ?case by simp
next
  case (Suc n)
  from Suc.prems(1) obtain st1 where it: "iteration g t st = Inr st1"
    and rest: "run g t n st1 = Some st'"
    by (auto split: if_splits sum.splits)
  from Suc.IH [OF rest iteration_keys [OF it Suc.prems(2)]] show ?case .
qed

lemma keys_initial: "keys_in_range start (initial_state start)"
  by (simp add: keys_in_range_def initial_state_def)

lemma visit_skip:
  "\<not> in_range (fst cur + fst d, snd cur + snd d) \<Longrightarrow> visit g cur st d = Inr st"
  by (auto simp add: visit_def in_range_def Let_def split: prod.splits)

lemma first_pass:
  assumes "start \<noteq> target"
  shows "iteration g target (initial_state start) =
    (case visit_all g start \<lparr>open_set = [], came_from = Map.empty, cost_so_far = [start \<mapsto> 0]\<rparr>
       offsets of Inl e \<Rightarrow> Inl (Inl e) | Inr st' \<Rightarrow> Inr st')"
  using assms by (simp add: iteration_def initial_state_def heappush_def heappop_single)

lemma search_loop_initial:
  "search_loop g target (initial_state start) =
    (case iteration g target (initial_state start) of
       Inl r \<Rightarrow> Some r | Inr st' \<Rightarrow> search_loop g target st')"
  by (subst search_loop.simps) (simp add: initial_state_def heappush_def)

text \<open>
  Claim C9, as the code has it. \<open>find_fastest_path\<close> does not validate its coordinates
  and reports no error for a start or target out of bounds. When \<open>start\<close> differs from
  \<open>target\<close> and none of its four neighbors passes the neighbor test, the search returns
  the empty predecessor map and the cost map \<open>{start: 0}\<close>; when \<open>target\<close> fails the
  neighbor test and differs from \<open>start\<close>, the dictionaries of every normal return have no
  entry for \<open>target\<close>.
\<close>

theorem no_coordinate_validation:
  "(start \<noteq> target \<and> (\<forall>d \<in> set offsets. \<not> in_range (fst start + fst d, snd start + snd d)) \<longrightarrow>
      find_fastest_path grid start target = Some (Inr (Map.empty, [start \<mapsto> 0]))) \<and>
   (\<not> in_range target \<and> target \<noteq> start \<and>
    find_fastest_path grid start target = Some (Inr (cf, cs)) \<longrightarrow>
      cf target = None \<and> cs target = None)"
proof (rule conjI; rule impI)
  assume a: "start \<noteq> target \<and>
    (\<forall>d \<in> set offsets. \<not> in_range (fst start + fst d, snd start + snd d))"
  let ?st = "\<lparr>open_set = [], came_from = Map.empty, cost_so_far = [start \<mapsto> (0::real)]\<rparr>"
  from a have "visit_all grid start ?st offsets = Inr ?st"
    by (simp add: offsets_def visit_skip)
  with a have "iteration grid target (initial_state start) = Inr ?st"
    by (simp add: first_pass)
  moreover have "search_loop grid target ?st = Some (Inr (Map.empty, [start \<mapsto> 0]))"
    by (subst search_loop.simps) simp
  ultimately show "find_fastest_path grid start target = Some (Inr (Map.empty, [start \<mapsto> 0]))"
    by (simp add: find_fastest_path_def search_loop_initial)
next
  assume a: "\<not> in_range target \<and> target \<noteq> start \<and>
    find_fastest_path grid start target = Some (Inr (cf, cs))"
  then have "search_loop grid target (initial_state start) = Some (Inr (cf, cs))"
    by (simp add: find_fastest_path_def)
  from search_loop_run [OF this] obtain n s where
    "run grid target n (initial_state start) = Some s" and cf: "cf = came_from s"
    and cs: "cs = cost_so_far s"
    by blast
  from run_keys [OF this(1) keys_initial] have "keys_in_range start s" .
  with a cf cs show "cf target = None \<and> cs target = None"
    unfolding keys_in_range_def by (metis not_Some_eq)
qed

theorem no_coordinate_validation_witness:
  "(- 7, 3) \<noteq> ((0, 0) :: coord) \<and> \<not> in_range (- 7, 3) \<and>
   find_fastest_path [] (- 7, 3) (0, 0) = Some (Inr (Map.empty, [(- 7, 3) \<mapsto> 0]))"
proof -
  have h: "(- 7, 3) \<noteq> ((0, 0) :: coord) \<and>
    (\<forall>d \<in> set offsets. \<not> in_range (fst (- 7, 3 :: int) + fst d, snd (- 7 :: int, 3) + snd d))"
    by (simp add: offsets_def in_range_def)
  have "\<not> in_range (- 7, 3)" by (simp add: in_range_def)
  with h no_coordinate_validation [of "(- 7, 3)" "(0, 0)" "[]", THEN conjunct1]
  show ?thesis by blast
qed

text \<open>
  The claim C9 as stated fails: with \<open>start = (200, 200)\<close> outside the \<open>100 \<times> 100\<close> grid
  the search returns normally.
\<close>

theorem unvalidated_start_counterexample:
  "find_fastest_path (uniform_grid 100 100 2 0) (200, 200) (50, 50) =
     Some (Inr (Map.empty, [(200, 200) \<mapsto> 0]))"
  by (simp add: find_fastest_path_def search_loop.simps iteration_def initial_state_def
      heappush_def heappop_single offsets_def visit_def GRID_SIZE_def Let_def)











end
